theory Spec2Isabelle
  imports Main
begin

section \<open>JavaScript values and arrays\<close>

text \<open>
  The values the game stores in a square: \<^verbatim>\<open>null\<close>, the strings \<^verbatim>\<open>"X"\<close> and
  \<^verbatim>\<open>"O"\<close>, and \<^verbatim>\<open>undefined\<close>, which is what a read of a missing index, of a
  hole or of a missing property gives.
\<close>

datatype jsval = Undefined | Null | Str string

text \<open>JavaScript truthiness of these values (\<^verbatim>\<open>if (v)\<close>, \<^verbatim>\<open>v && ...\<close>).\<close>

fun truthy :: "jsval \<Rightarrow> bool" where
  "truthy Undefined = False"
| "truthy Null = False"
| "truthy (Str s) = (s \<noteq> [])"

text \<open>
  A JavaScript array object: its indexed elements \<open>0 .. length - 1\<close> (a hole is
  stored as \<open>Undefined\<close>, the value a read of it gives) and its other own
  properties, keyed by the number used as property name (\<^verbatim>\<open>a[-1] = v\<close> creates the
  property \<^verbatim>\<open>"-1"\<close> and leaves the elements and the length alone).
\<close>

record jsarray =
  elems :: "jsval list"
  props :: "(int \<times> jsval) list"

text \<open>The largest array index of JavaScript is \<open>2^32 - 2\<close>.\<close>

definition isArrayIndex :: "int \<Rightarrow> bool" where
  "isArrayIndex i = (0 \<le> i \<and> i < 4294967295)"

text \<open>\<^verbatim>\<open>a[i]\<close> for an integer \<open>i\<close>: never a fault, \<^verbatim>\<open>undefined\<close> when absent.\<close>

definition arr_get :: "jsarray \<Rightarrow> int \<Rightarrow> jsval" where
  "arr_get a i =
     (if 0 \<le> i \<and> i < int (length (elems a)) then elems a ! nat i
      else (case map_of (props a) i of Some v \<Rightarrow> v | None \<Rightarrow> Undefined))"

text \<open>
  \<^verbatim>\<open>a[i] = v\<close> for an integer \<open>i\<close>: inside the array the element is replaced;
  past its end the array grows, the indices in between being holes; an \<open>i\<close> that
  is no array index sets an ordinary property.
\<close>

definition arr_set :: "jsarray \<Rightarrow> int \<Rightarrow> jsval \<Rightarrow> jsarray" where
  "arr_set a i v =
     (if isArrayIndex i then
        (if nat i < length (elems a) then a\<lparr>elems := (elems a)[nat i := v]\<rparr>
         else a\<lparr>elems := elems a @ replicate (nat i - length (elems a)) Undefined @ [v]\<rparr>)
      else a\<lparr>props := (i, v) # props a\<rparr>)"

text \<open>\<^verbatim>\<open>a.slice()\<close>: a new array with the elements of \<open>a\<close>; other properties are not copied.\<close>

definition arr_slice :: "jsarray \<Rightarrow> jsarray" where
  "arr_slice a = \<lparr>elems = elems a, props = []\<rparr>"

text \<open>\<^verbatim>\<open>Array(n).fill(v)\<close>.\<close>

definition arr_fill :: "nat \<Rightarrow> jsval \<Rightarrow> jsarray" where
  "arr_fill n v = \<lparr>elems = replicate n v, props = []\<rparr>"

text \<open>
  \<^verbatim>\<open>a.every(square => square !== null)\<close>. \<^verbatim>\<open>every\<close> skips holes; the callback
  is true on \<^verbatim>\<open>undefined\<close>, so a hole stored as \<open>Undefined\<close> counts the same.
\<close>

definition every_not_null :: "jsarray \<Rightarrow> bool" where
  "every_not_null a = list_all (\<lambda>square. square \<noteq> Null) (elems a)"

text \<open>
  \<^verbatim>\<open>xs.slice(0, e)\<close> on the history array: a negative end counts from the back,
  an end past the length is the length.
\<close>

definition js_slice0 :: "'a list \<Rightarrow> int \<Rightarrow> 'a list" where
  "js_slice0 xs e =
     (let n = int (length xs);
          k = (if e < 0 then max (n + e) 0 else min e n)
      in take (nat k) xs)"

text \<open>\<^verbatim>\<open>xs[j]\<close> on the history array: \<open>None\<close> is \<^verbatim>\<open>undefined\<close>.\<close>

definition js_index :: "'a list \<Rightarrow> int \<Rightarrow> 'a option" where
  "js_index xs j = (if 0 \<le> j \<and> j < int (length xs) then Some (xs ! nat j) else None)"

text \<open>\<^verbatim>\<open>a % b\<close> on integers: the remainder has the sign of the dividend.\<close>

definition js_rem :: "int \<Rightarrow> int \<Rightarrow> int" where
  "js_rem a b = sgn a * (\<bar>a\<bar> mod \<bar>b\<bar>)"

section \<open>The winner calculation\<close>

type_synonym line = "int \<times> int \<times> int"

record winnerObj =
  winner :: jsval
  line :: line

definition lines :: "line list" where
  "lines =
     [(0, 1, 2), (3, 4, 5), (6, 7, 8),
      (0, 3, 6), (1, 4, 7), (2, 5, 8),
      (0, 4, 8), (2, 4, 6)]"

text \<open>The \<^verbatim>\<open>for (let line of lines)\<close> loop of \<^verbatim>\<open>calculateWinner\<close>.\<close>

fun scanLines :: "jsarray \<Rightarrow> line list \<Rightarrow> winnerObj option" where
  "scanLines squares [] = None"
| "scanLines squares ((a, b, c) # rest) =
     (if truthy (arr_get squares a) \<and> arr_get squares a = arr_get squares b
         \<and> arr_get squares a = arr_get squares c
      then Some \<lparr>winner = arr_get squares a, line = (a, b, c)\<rparr>
      else scanLines squares rest)"

text \<open>The test of the loop body, for one line.\<close>

fun threeInLine :: "jsarray \<Rightarrow> line \<Rightarrow> bool" where
  "threeInLine squares (a, b, c) =
     (truthy (arr_get squares a) \<and> arr_get squares a = arr_get squares b
        \<and> arr_get squares a = arr_get squares c)"

text \<open>\<^verbatim>\<open>calculateWinner(squares)\<close> on an array; \<open>None\<close> is the result \<^verbatim>\<open>null\<close>.\<close>

definition calculateWinner :: "jsarray \<Rightarrow> winnerObj option" where
  "calculateWinner squares = scanLines squares lines"

section \<open>The game component\<close>

text \<open>
  The store holds the board arrays; the history is an array of references into it, so
  that a write to one board can be told from a write to another. \<open>nextRef\<close> is the
  first address not yet allocated. The three \<^verbatim>\<open>useState\<close> cells of
  \<^verbatim>\<open>TicTacToeGame\<close> are \<open>history\<close>, \<open>stepNumber\<close> and \<open>xIsNext\<close>.
\<close>

type_synonym ref = nat

record state =
  heap :: "ref \<Rightarrow> jsarray"
  nextRef :: ref
  history :: "ref list"
  stepNumber :: int
  xIsNext :: bool

definition noArray :: jsarray where
  "noArray = \<lparr>elems = [], props = []\<rparr>"

definition initialState :: state where
  "initialState =
     \<lparr>heap = (\<lambda>_. noArray)(0 := arr_fill 9 Null), nextRef = 1,
      history = [0], stepNumber = 0, xIsNext = True\<rparr>"

text \<open>
  What one render of \<^verbatim>\<open>TicTacToeGame\<close> derives from the current board:
  \<^verbatim>\<open>winnerObj\<close> and \<^verbatim>\<open>draw\<close>.
\<close>

record view =
  currentSquares :: jsarray
  winnerObj :: "winnerObj option"
  draw :: bool

definition derive :: "jsarray \<Rightarrow> view" where
  "derive sq =
     (let w = calculateWinner sq
      in \<lparr>currentSquares = sq, winnerObj = w, draw = (w = None \<and> every_not_null sq)\<rparr>)"

datatype error = TypeError

text \<open>
  The render: \<^verbatim>\<open>history[stepNumber]\<close> is \<^verbatim>\<open>undefined\<close> when \<open>stepNumber\<close> is no
  index of the history, and then \<^verbatim>\<open>calculateWinner\<close> throws a TypeError at its first
  \<^verbatim>\<open>squares[a]\<close>.
\<close>

definition render :: "state \<Rightarrow> error + view" where
  "render s =
     (case js_index (history s) (stepNumber s) of
        None \<Rightarrow> Inl TypeError
      | Some r \<Rightarrow> Inr (derive (heap s r)))"

text \<open>
  \<^verbatim>\<open>handleClick(i)\<close>, the closure of the render \<open>v\<close> of state \<open>s\<close>. The guard
  short-circuits: with a winner, \<^verbatim>\<open>current[i]\<close> is not read.
\<close>

definition handleClick :: "view \<Rightarrow> state \<Rightarrow> int \<Rightarrow> error + state" where
  "handleClick v s i =
     (let historyUpToStep = js_slice0 (history s) (stepNumber s + 1);
          current = js_index historyUpToStep (int (length historyUpToStep) - 1)
      in if winnerObj v \<noteq> None then Inr s
         else (case current of
                 None \<Rightarrow> Inl TypeError
               | Some cur \<Rightarrow>
                   if truthy (arr_get (heap s cur) i) then Inr s
                   else
                     (let squares = nextRef s;
                          h1 = (heap s)(squares := arr_slice (heap s cur));
                          h2 = h1(squares := arr_set (h1 squares) i
                                    (if xIsNext s then Str ''X'' else Str ''O''))
                      in Inr \<lparr>heap = h2, nextRef = Suc squares,
                              history = historyUpToStep @ [squares],
                              stepNumber = int (length historyUpToStep),
                              xIsNext = (\<not> xIsNext s)\<rparr>)))"

definition resetGame :: "state \<Rightarrow> state" where
  "resetGame s =
     \<lparr>heap = (heap s)(nextRef s := arr_fill 9 Null), nextRef = Suc (nextRef s),
      history = [nextRef s], stepNumber = 0, xIsNext = True\<rparr>"

definition jumpTo :: "state \<Rightarrow> int \<Rightarrow> state" where
  "jumpTo s move = s\<lparr>stepNumber := move, xIsNext := (js_rem move 2 = 0)\<rparr>"

text \<open>
  The effect with dependency \<^verbatim>\<open>[stepNumber]\<close>: it runs after a render whose
  \<open>stepNumber\<close> differs from that of the render before.
\<close>

definition stepEffect :: "int \<Rightarrow> state \<Rightarrow> state" where
  "stepEffect before s =
     (if stepNumber s \<noteq> before \<and> stepNumber s = 0 then s\<lparr>xIsNext := True\<rparr> else s)"

text \<open>
  The events the rendered component can receive: a click on a square, on the reset
  button, on a button of the move list. A component whose render threw is unmounted and
  handles nothing: the fault of the render is the result.
\<close>

datatype event = SquareClick int | ResetClick | JumpClick int

definition dispatch :: "state \<Rightarrow> event \<Rightarrow> error + state" where
  "dispatch s ev =
     (case render s of
        Inl e \<Rightarrow> Inl e
      | Inr v \<Rightarrow>
          (case (case ev of
                   SquareClick i \<Rightarrow> handleClick v s i
                 | ResetClick \<Rightarrow> Inr (resetGame s)
                 | JumpClick move \<Rightarrow> Inr (jumpTo s move)) of
             Inl e \<Rightarrow> Inl e
           | Inr s' \<Rightarrow> Inr (stepEffect (stepNumber s) s')))"

text \<open>
  \<^verbatim>\<open>GameStatus({winner, draw, xIsNext})\<close>, as the text of the element it returns;
  \<open>winner\<close> is \<^verbatim>\<open>winnerObj?.winner\<close>. The two emoji are given by their UTF-8 bytes.
\<close>

definition partyPopper :: string where
  "partyPopper = [CHR 0xF0, CHR 0x9F, CHR 0x8E, CHR 0x89]"

definition handshake :: string where
  "handshake = [CHR 0xF0, CHR 0x9F, CHR 0xA4, CHR 0x9D]"

fun jsText :: "jsval \<Rightarrow> string" where
  "jsText (Str s) = s"
| "jsText _ = []"

definition GameStatus :: "jsval \<Rightarrow> bool \<Rightarrow> bool \<Rightarrow> string" where
  "GameStatus win drw xNext =
     (if truthy win then ''Winner: '' @ jsText win @ '' '' @ partyPopper
      else if drw then ''It's a draw! '' @ handshake
      else ''Next player: '' @ (if xNext then ''X'' else ''O''))"

text \<open>
  The props \<^verbatim>\<open>TicTacToeGame\<close> hands on: the status line gets
  \<^verbatim>\<open>winnerObj?.winner\<close>, \<^verbatim>\<open>draw\<close> and \<^verbatim>\<open>xIsNext\<close>; the board gets
  \<^verbatim>\<open>winnerObj ? winnerObj.line : null\<close> as the line to highlight.
\<close>

definition statusText :: "view \<Rightarrow> bool \<Rightarrow> string" where
  "statusText v xNext =
     GameStatus (case winnerObj v of None \<Rightarrow> Undefined | Some w \<Rightarrow> winner w) (draw v) xNext"

definition winningLine :: "view \<Rightarrow> line option" where
  "winningLine v = (case winnerObj v of None \<Rightarrow> None | Some w \<Rightarrow> Some (line w))"

text \<open>The status line the component shows in state \<open>s\<close>.\<close>

definition status :: "state \<Rightarrow> error + string" where
  "status s = (case render s of Inl e \<Rightarrow> Inl e | Inr v \<Rightarrow> Inr (statusText v (xIsNext s)))"

text \<open>A sequence of events, handled one after the other; the first fault ends it.\<close>

fun run :: "state \<Rightarrow> event list \<Rightarrow> error + state" where
  "run s [] = Inr s"
| "run s (ev # evs) = (case dispatch s ev of Inl e \<Rightarrow> Inl e | Inr s' \<Rightarrow> run s' evs)"

section \<open>The engine as the specification sees it\<close>

text \<open>
  History is the sequence of boards the history array refers to, CurrentIndex is
  \<open>stepNumber\<close>, and the board at CurrentIndex is \<open>current\<close>.
\<close>

definition History :: "state \<Rightarrow> jsarray list" where
  "History s = map (heap s) (history s)"

definition current :: "state \<Rightarrow> jsarray" where
  "current s = History s ! nat (stepNumber s)"

text \<open>
  The Outcome of a board, read off what the render derives: a winner object is a Win,
  else \<^verbatim>\<open>draw\<close> is a Draw, else the game is undecided (the order in which
  \<^verbatim>\<open>GameStatus\<close> tests them).
\<close>

datatype outcome = Undecided | Win jsval line | Draw

definition Outcome :: "jsarray \<Rightarrow> outcome" where
  "Outcome sq =
     (case winnerObj (derive sq) of
        Some w \<Rightarrow> Win (winner w) (line w)
      | None \<Rightarrow> if draw (derive sq) then Draw else Undecided)"

text \<open>The mark \<^verbatim>\<open>handleClick\<close> writes: \<^verbatim>\<open>xIsNext ? "X" : "O"\<close>.\<close>

definition nextMark :: "state \<Rightarrow> jsval" where
  "nextMark s = (if xIsNext s then Str ''X'' else Str ''O'')"

text \<open>The state an accepted click on square \<open>i\<close> leaves.\<close>

definition placed :: "state \<Rightarrow> int \<Rightarrow> state" where
  "placed s i =
     \<lparr>heap = (heap s)(nextRef s := arr_set (arr_slice (current s)) i (nextMark s)),
      nextRef = Suc (nextRef s),
      history = take (Suc (nat (stepNumber s))) (history s) @ [nextRef s],
      stepNumber = stepNumber s + 1,
      xIsNext = (\<not> xIsNext s)\<rparr>"

text \<open>
  The events the rendered page offers: \<^verbatim>\<open>Board\<close> renders the squares
  \<open>row * 3 + col\<close> for rows and columns 0 to 2, \<^verbatim>\<open>MoveHistory\<close> one button for
  each index of the history, and there is the reset button.
\<close>

definition offered :: "state \<Rightarrow> event \<Rightarrow> bool" where
  "offered s ev =
     (case ev of
        SquareClick i \<Rightarrow> 0 \<le> i \<and> i \<le> 8
      | ResetClick \<Rightarrow> True
      | JumpClick move \<Rightarrow> 0 \<le> move \<and> move < int (length (history s)))"

inductive reachable :: "state \<Rightarrow> bool" where
  start: "reachable initialState"
| step: "reachable s \<Longrightarrow> offered s ev \<Longrightarrow> dispatch s ev = Inr s' \<Longrightarrow> reachable s'"

text \<open>A sequence of events each of which the page offers when it comes.\<close>

fun offeredAll :: "state \<Rightarrow> event list \<Rightarrow> bool" where
  "offeredAll s [] = True"
| "offeredAll s (ev # evs) =
     (offered s ev \<and> (case dispatch s ev of Inl e \<Rightarrow> False | Inr s' \<Rightarrow> offeredAll s' evs))"

text \<open>The state after a sequence of events from a fresh game.\<close>

definition after :: "event list \<Rightarrow> state" where
  "after evs = (case run initialState evs of Inl e \<Rightarrow> initialState | Inr s \<Rightarrow> s)"

text \<open>Three games used as examples below.\<close>

definition threeMoves :: state where
  "threeMoves = after [SquareClick 0, SquareClick 3, SquareClick 1]"

definition xWins :: state where
  "xWins = after [SquareClick 0, SquareClick 3, SquareClick 1, SquareClick 4, SquareClick 2]"

definition xWinsBackAt3 :: state where
  "xWinsBackAt3 =
     after [SquareClick 0, SquareClick 3, SquareClick 1, SquareClick 4, SquareClick 2,
            JumpClick 3]"

subsection \<open>Well-formed boards and states\<close>

definition isMark :: "jsval \<Rightarrow> bool" where
  "isMark v = (v = Str ''X'' \<or> v = Str ''O'')"

definition wf_board :: "jsarray \<Rightarrow> bool" where
  "wf_board b =
     (length (elems b) = 9 \<and> props b = [] \<and> list_all (\<lambda>c. c = Null \<or> isMark c) (elems b))"

definition marks :: "jsarray \<Rightarrow> nat" where
  "marks b = length (filter (\<lambda>c. c \<noteq> Null) (elems b))"

definition oneMove :: "jsarray \<Rightarrow> jsarray \<Rightarrow> bool" where
  "oneMove b b' =
     (\<exists>i<9. elems b ! i = Null \<and> isMark (elems b' ! i)
        \<and> b' = b\<lparr>elems := (elems b)[i := elems b' ! i]\<rparr>)"

definition good :: "state \<Rightarrow> bool" where
  "good s =
     (history s \<noteq> [] \<and> 0 \<le> stepNumber s \<and> stepNumber s < int (length (history s))
      \<and> (\<forall>r \<in> set (history s). r < nextRef s)
      \<and> xIsNext s = even (stepNumber s)
      \<and> (\<forall>k < length (history s). wf_board (History s ! k) \<and> marks (History s ! k) = k)
      \<and> (\<forall>k. Suc k < length (history s) \<longrightarrow> oneMove (History s ! k) (History s ! Suc k)))"

subsection \<open>The eight lines in the words of the specification\<close>

text \<open>
  Rows, then columns, then diagonals, of the grid whose cell in row \<open>r\<close> and column
  \<open>c\<close> has index \<open>r * 3 + c\<close>; a line wins when its three cells are equal and
  not Empty.
\<close>

definition spec_lines :: "line list" where
  "spec_lines =
     map (\<lambda>r. (r * 3, r * 3 + 1, r * 3 + 2)) [0, 1, 2]
       @ map (\<lambda>c. (c, 3 + c, 6 + c)) [0, 1, 2]
       @ [(0, 4, 8), (2, 4, 6)]"

fun spec_wins :: "jsarray \<Rightarrow> line \<Rightarrow> bool" where
  "spec_wins b (x, y, z) =
     (elems b ! nat x \<noteq> Null \<and> elems b ! nat x = elems b ! nat y
        \<and> elems b ! nat x = elems b ! nat z)"

section \<open>Basic facts\<close>

lemma js_rem_2: "(js_rem m 2 = 0) = even m"
  by (auto simp: js_rem_def sgn_if)

lemma length_History [simp]: "length (History s) = length (history s)"
  by (simp add: History_def)

lemma good_initial: "good initialState"
  by (simp add: good_def initialState_def History_def wf_board_def marks_def arr_fill_def
      list_all_iff)

lemma good_bounds:
  assumes "good s"
  shows "0 \<le> stepNumber s" "nat (stepNumber s) < length (history s)"
  using assms by (auto simp: good_def)

lemma good_board:
  assumes "good s" "k < length (history s)"
  shows "wf_board (History s ! k)" "marks (History s ! k) = k"
  using assms by (auto simp: good_def)

lemma good_chain:
  assumes "good s" "Suc k < length (history s)"
  shows "oneMove (History s ! k) (History s ! Suc k)"
  using assms by (auto simp: good_def)

lemma good_current:
  assumes "good s"
  shows "wf_board (current s)" "marks (current s) = nat (stepNumber s)"
  using good_board [OF assms good_bounds(2) [OF assms]] by (simp_all add: current_def)

lemma render_good:
  assumes "good s"
  shows "render s = Inr (derive (current s))"
  using good_bounds [OF assms]
  by (simp add: render_def js_index_def current_def History_def)

lemma marks_update:
  assumes "i < length xs" "xs ! i = Null" "v \<noteq> Null"
  shows "length (filter (\<lambda>c. c \<noteq> Null) (xs[i := v]))
           = Suc (length (filter (\<lambda>c. c \<noteq> Null) xs))"
  using assms
proof (induction xs arbitrary: i)
  case Nil
  then show ?case by simp
next
  case (Cons x xs)
  then show ?case by (cases i) auto
qed

lemma wf_no_hole: "wf_board b \<Longrightarrow> i < 9 \<Longrightarrow> truthy (elems b ! i) = (elems b ! i \<noteq> Null)"
  by (auto simp: wf_board_def isMark_def list_all_length)

lemma arr_set_inside:
  assumes "wf_board b" "0 \<le> i" "i \<le> 8"
  shows "arr_set (arr_slice b) i v = b\<lparr>elems := (elems b)[nat i := v]\<rparr>"
  using assms by (simp add: arr_set_def arr_slice_def wf_board_def isArrayIndex_def)

lemma arr_get_inside:
  assumes "wf_board b" "0 \<le> i" "i \<le> 8"
  shows "arr_get b i = elems b ! nat i"
  using assms by (simp add: arr_get_def wf_board_def)

lemma empty_square:
  assumes "wf_board b" "0 \<le> i" "i \<le> 8"
  shows "truthy (arr_get b i) = (elems b ! nat i \<noteq> Null)"
  using assms by (simp add: arr_get_inside wf_no_hole)

lemma isMark_nextMark: "isMark (nextMark s)"
  by (simp add: isMark_def nextMark_def)

subsection \<open>What the three handlers do in a well-formed state\<close>

lemma dispatch_click:
  assumes "good s"
  shows "dispatch s (SquareClick i) =
           (if winnerObj (derive (current s)) \<noteq> None \<or> truthy (arr_get (current s) i)
            then Inr s else Inr (placed s i))"
proof -
  let ?c = "nat (stepNumber s)"
  note c = good_bounds [OF assms]
  have sl: "js_slice0 (history s) (stepNumber s + 1) = take (Suc ?c) (history s)"
    using c by (simp add: js_slice0_def Let_def min_def nat_add_distrib)
  have len: "length (take (Suc ?c) (history s)) = Suc ?c"
    using c by simp
  have ix: "js_index (take (Suc ?c) (history s)) (int (length (take (Suc ?c) (history s))) - 1)
              = Some (history s ! ?c)"
    unfolding len using c by (simp add: js_index_def)
  have cur: "heap s (history s ! ?c) = current s"
    using c by (simp add: current_def History_def)
  have eff1: "stepEffect (stepNumber s) s = s"
    by (simp add: stepEffect_def)
  have eff2: "stepEffect (stepNumber s) (placed s i) = placed s i"
    using c by (simp add: stepEffect_def placed_def)
  have hc: "handleClick v s i =
          (if winnerObj v \<noteq> None \<or> truthy (arr_get (current s) i) then Inr s
           else Inr (placed s i))" for v
    unfolding handleClick_def sl ix Let_def
    using c by (simp add: cur placed_def nextMark_def len)
  show ?thesis
    unfolding dispatch_def render_good [OF assms]
    by (simp add: hc eff1 eff2)
qed

lemma dispatch_reset:
  assumes "good s"
  shows "dispatch s ResetClick = Inr (resetGame s)"
  unfolding dispatch_def render_good [OF assms]
  by (simp add: stepEffect_def resetGame_def)

lemma dispatch_jump:
  assumes "good s"
  shows "dispatch s (JumpClick move) = Inr (jumpTo s move)"
  unfolding dispatch_def render_good [OF assms]
  by (simp add: stepEffect_def jumpTo_def js_rem_2)

lemma History_placed:
  assumes "good s"
  shows "History (placed s i) =
           take (Suc (nat (stepNumber s))) (History s)
             @ [arr_set (arr_slice (current s)) i (nextMark s)]"
proof -
  have fresh: "nextRef s \<notin> set (take n (history s))" for n
    using assms by (auto simp: good_def dest: in_set_takeD)
  have same: "map (h(a := b)) xs = map h xs" if "a \<notin> set xs"
    for h :: "ref \<Rightarrow> jsarray" and a b xs
    using that by (induction xs) auto
  show ?thesis
    by (simp add: History_def placed_def take_map same [OF fresh])
qed

lemma placed_length:
  assumes "good s"
  shows "length (history (placed s i)) = Suc (Suc (nat (stepNumber s)))"
  using good_bounds [OF assms] by (simp add: placed_def)

lemma placed_old:
  assumes "good s" "k \<le> nat (stepNumber s)"
  shows "History (placed s i) ! k = History s ! k"
  using good_bounds [OF assms(1)] assms(2)
  by (simp add: History_placed [OF assms(1)] nth_append)

lemma placed_new:
  assumes "good s"
  shows "History (placed s i) ! Suc (nat (stepNumber s))
           = arr_set (arr_slice (current s)) i (nextMark s)"
  using good_bounds [OF assms]
  by (simp add: History_placed [OF assms] nth_append)

lemma History_jumpTo [simp]: "History (jumpTo s move) = History s"
  by (simp add: History_def jumpTo_def)

lemma History_reset [simp]: "History (resetGame s) = [arr_fill 9 Null]"
  by (simp add: History_def resetGame_def)

subsection \<open>Every reachable state is well-formed\<close>

lemma good_placed:
  assumes g: "good s" and i: "0 \<le> i" "i \<le> 8" and e: "elems (current s) ! nat i = Null"
  shows "good (placed s i)"
proof -
  let ?c = "nat (stepNumber s)"
  let ?new = "(current s)\<lparr>elems := (elems (current s))[nat i := nextMark s]\<rparr>"
  have wf: "wf_board (current s)" and mk: "marks (current s) = ?c"
    using good_current [OF g] by auto
  have new: "History (placed s i) ! Suc ?c = ?new"
    by (simp add: placed_new [OF g] arr_set_inside [OF wf i])
  have ni: "nat i < length (elems (current s))"
    using wf i by (simp add: wf_board_def)
  have wfn: "wf_board ?new"
    using wf isMark_nextMark [of s]
    by (auto simp: wf_board_def list_all_iff dest!: set_update_subset_insert [THEN subsetD])
  have "nextMark s \<noteq> Null"
    by (simp add: nextMark_def)
  then have mkn: "marks ?new = Suc ?c"
    using ni e mk by (simp add: marks_def marks_update)
  have om: "oneMove (current s) ?new"
    using wf ni e isMark_nextMark [of s]
    by (auto simp: oneMove_def wf_board_def intro!: exI [of _ "nat i"])
  have p1: "history (placed s i) \<noteq> []" by (simp add: placed_def)
  have p2: "0 \<le> stepNumber (placed s i)
      \<and> stepNumber (placed s i) < int (length (history (placed s i)))"
    using good_bounds(1) [OF g] by (simp add: placed_length [OF g]) (simp add: placed_def)
  have p3: "\<forall>r \<in> set (history (placed s i)). r < nextRef (placed s i)"
    using g by (auto simp: placed_def good_def dest!: in_set_takeD)
  have p4: "xIsNext (placed s i) = even (stepNumber (placed s i))"
    using g by (simp add: placed_def good_def)
  have p5: "wf_board (History (placed s i) ! k) \<and> marks (History (placed s i) ! k) = k"
    if "k < length (history (placed s i))" for k
  proof (cases "k \<le> ?c")
    case True
    then have "k < length (history s)" using good_bounds [OF g] by simp
    then show ?thesis using True by (simp add: placed_old [OF g] good_board [OF g])
  next
    case False
    with that have "k = Suc ?c" by (simp add: placed_length [OF g])
    then show ?thesis using wfn mkn new by simp
  qed
  have p6: "oneMove (History (placed s i) ! k) (History (placed s i) ! Suc k)"
    if "Suc k < length (history (placed s i))" for k
  proof (cases "Suc k \<le> ?c")
    case True
    then have "Suc k < length (history s)" using good_bounds [OF g] by simp
    then show ?thesis using True by (simp add: placed_old [OF g] good_chain [OF g])
  next
    case False
    with that have k: "k = ?c" by (simp add: placed_length [OF g])
    show ?thesis
      unfolding k new using om by (simp add: placed_old [OF g] current_def)
  qed
  show ?thesis
    unfolding good_def using p1 p2 p3 p4 p5 p6 by blast
qed

lemma good_reset: "good (resetGame s)"
  by (simp add: good_def resetGame_def History_def wf_board_def marks_def arr_fill_def
      list_all_iff)

lemma good_jump:
  assumes "good s" "0 \<le> move" "move < int (length (history s))"
  shows "good (jumpTo s move)"
proof -
  have "history (jumpTo s move) = history s" "nextRef (jumpTo s move) = nextRef s"
    "stepNumber (jumpTo s move) = move" "xIsNext (jumpTo s move) = even move"
    by (simp_all add: jumpTo_def js_rem_2)
  then show ?thesis
    using assms unfolding good_def by simp
qed

lemma reachable_good: "reachable s \<Longrightarrow> good s"
proof (induction rule: reachable.induct)
  case start
  show ?case by (rule good_initial)
next
  case (step s ev s')
  show ?case
  proof (cases ev)
    case (SquareClick i)
    with step.hyps have i: "0 \<le> i" "i \<le> 8" by (simp_all add: offered_def)
    from step.hyps(3) have "s' = s \<or> (s' = placed s i \<and> \<not> truthy (arr_get (current s) i))"
      by (auto simp: SquareClick dispatch_click [OF step.IH] split: if_splits)
    then show ?thesis
      using step.IH good_placed [OF step.IH i]
        empty_square [OF good_current(1) [OF step.IH] i] by auto
  next
    case ResetClick
    with step.hyps(3) show ?thesis
      by (auto simp: dispatch_reset [OF step.IH] good_reset)
  next
    case (JumpClick move)
    with step.hyps have "0 \<le> move" "move < int (length (history s))" "s' = jumpTo s move"
      by (auto simp: offered_def dispatch_jump [OF step.IH])
    then show ?thesis
      using good_jump [OF step.IH] by simp
  qed
qed

subsection \<open>Concrete games\<close>

lemma reachable_run:
  "reachable s \<Longrightarrow> offeredAll s evs \<Longrightarrow> run s evs = Inr s' \<Longrightarrow> reachable s'"
proof (induction evs arbitrary: s)
  case Nil
  then show ?case by simp
next
  case (Cons ev evs)
  then show ?case
    by (auto split: sum.splits intro: reachable.step)
qed

lemma reachable_after: "offeredAll initialState evs \<Longrightarrow> reachable (after evs)"
proof -
  have "offeredAll s evs \<Longrightarrow> \<exists>s'. run s evs = Inr s'" for s
    by (induction evs arbitrary: s) (auto split: sum.splits)
  then show "offeredAll initialState evs \<Longrightarrow> reachable (after evs)"
    using reachable_run [OF reachable.start, of evs]
    by (fastforce simp: after_def)
qed

lemma Outcome_decided:
  "Outcome b \<noteq> Undecided \<longleftrightarrow> winnerObj (derive b) \<noteq> None \<or> every_not_null b"
  by (auto simp: Outcome_def derive_def Let_def split: option.splits)

lemma every_not_null_nth:
  assumes "every_not_null b" "k < length (elems b)"
  shows "elems b ! k \<noteq> Null"
  using assms by (simp add: every_not_null_def list_all_length)

section \<open>Rejected moves\<close>

text \<open>
  C1. In a reachable state, a click on a square 0..8 that is occupied on the board at
  CurrentIndex, or on any square once the Outcome of that board is a Win or a Draw,
  returns without a fault and leaves the whole state as it was: the history, the step
  number, the turn flag and the store, and with them History, CurrentIndex and every
  derived view.
\<close>

theorem rejected_click_is_noop:
  assumes "reachable s" and "0 \<le> i" and "i \<le> 8"
    and "elems (current s) ! nat i \<noteq> Null \<or> Outcome (current s) \<noteq> Undecided"
  shows "dispatch s (SquareClick i) = Inr s"
proof -
  have g: "good s" using assms(1) by (rule reachable_good)
  have wf: "wf_board (current s)" by (rule good_current(1) [OF g])
  have "nat i < length (elems (current s))"
    using wf assms(2,3) by (simp add: wf_board_def)
  then have "every_not_null (current s) \<Longrightarrow> elems (current s) ! nat i \<noteq> Null"
    by (rule every_not_null_nth [rotated])
  with assms(4) have "winnerObj (derive (current s)) \<noteq> None \<or> elems (current s) ! nat i \<noteq> Null"
    by (auto simp: Outcome_decided)
  then show ?thesis
    by (auto simp: dispatch_click [OF g] empty_square [OF wf assms(2,3)])
qed

theorem rejected_click_is_noop_witness:
  "reachable xWins \<and> Outcome (current xWins) = Win (Str ''X'') (0, 1, 2)
   \<and> dispatch xWins (SquareClick 8) = Inr xWins"
proof -
  have r: "reachable xWins"
    unfolding xWins_def by (rule reachable_after) code_simp
  have o: "Outcome (current xWins) = Win (Str ''X'') (0, 1, 2)"
    by code_simp
  from rejected_click_is_noop [OF r, of 8] o
  have "dispatch xWins (SquareClick 8) = Inr xWins" by simp
  with r o show ?thesis by simp
qed

section \<open>The outcome of a board\<close>

lemma lines_are_spec_lines: "lines = spec_lines"
  by (simp add: lines_def spec_lines_def)

lemma scanLines_find:
  "scanLines sq ls =
     (case find (threeInLine sq) ls of
        None \<Rightarrow> None
      | Some l \<Rightarrow> Some \<lparr>winner = arr_get sq (fst l), line = l\<rparr>)"
  by (induction sq ls rule: scanLines.induct) auto

lemma line_in_board:
  assumes "(x, y, z) \<in> set spec_lines"
  shows "0 \<le> x \<and> x \<le> 8 \<and> 0 \<le> y \<and> y \<le> 8 \<and> 0 \<le> z \<and> z \<le> 8"
  using assms by (auto simp: spec_lines_def)

lemma wins_agree:
  assumes "wf_board b" "l \<in> set spec_lines"
  shows "threeInLine b l = spec_wins b l"
proof -
  obtain x y z where l: "l = (x, y, z)" by (cases l) auto
  have r: "0 \<le> x \<and> x \<le> 8 \<and> 0 \<le> y \<and> y \<le> 8 \<and> 0 \<le> z \<and> z \<le> 8"
    by (rule line_in_board [OF assms(2) [unfolded l]])
  then have "nat x < 9" by arith
  then have "truthy (elems b ! nat x) = (elems b ! nat x \<noteq> Null)"
    by (rule wf_no_hole [OF assms(1)])
  then show ?thesis
    using r by (simp add: l arr_get_inside [OF assms(1)])
qed

lemma calculateWinner_find:
  assumes "wf_board b"
  shows "calculateWinner b =
     (case find (spec_wins b) spec_lines of
        None \<Rightarrow> None
      | Some l \<Rightarrow> Some \<lparr>winner = elems b ! nat (fst l), line = l\<rparr>)"
proof -
  have f: "find (threeInLine b) spec_lines = find (spec_wins b) spec_lines"
    by (rule find_cong [OF refl]) (rule wins_agree [OF assms])
  show ?thesis
  proof (cases "find (spec_wins b) spec_lines")
    case None
    then show ?thesis
      by (simp add: calculateWinner_def lines_are_spec_lines scanLines_find f)
  next
    case (Some l)
    then have "l \<in> set spec_lines" by (auto simp: find_Some_iff)
    then have "0 \<le> fst l" "fst l \<le> 8"
      using line_in_board [of "fst l" "fst (snd l)" "snd (snd l)"] by auto
    then show ?thesis
      using Some
      by (simp add: calculateWinner_def lines_are_spec_lines scanLines_find f
          arr_get_inside [OF assms])
  qed
qed

lemma every_not_null_wf:
  assumes "wf_board b"
  shows "every_not_null b \<longleftrightarrow> (\<forall>k<9. elems b ! k \<noteq> Null)"
  using assms by (simp add: every_not_null_def list_all_length wf_board_def)

lemma Outcome_find:
  assumes "wf_board b"
  shows "Outcome b =
     (case find (spec_wins b) spec_lines of
        Some l \<Rightarrow> Win (elems b ! nat (fst l)) l
      | None \<Rightarrow> if \<forall>k<9. elems b ! k \<noteq> Null then Draw else Undecided)"
  by (simp add: Outcome_def derive_def Let_def calculateWinner_find [OF assms]
      every_not_null_wf [OF assms] split: option.splits)

text \<open>
  C2. For every board of nine cells that are empty or marked: the outcome is a Win
  exactly when one of the eight lines (rows, columns, diagonals) has three equal cells
  that are not empty; the line of a Win is the first such line in the order rows,
  columns, diagonals, and its player is the mark on that line; the outcome is a Draw
  exactly when no line wins and no cell is empty; it is Undecided exactly when no line
  wins and some cell is empty; a winner object and the draw flag are never both set.
\<close>

theorem outcome_evaluator:
  assumes "wf_board b"
  shows "((\<exists>p l. Outcome b = Win p l) \<longleftrightarrow> (\<exists>l \<in> set spec_lines. spec_wins b l))
    \<and> (\<forall>p l. Outcome b = Win p l \<longrightarrow>
          find (spec_wins b) spec_lines = Some l \<and> p = elems b ! nat (fst l))
    \<and> (Outcome b = Draw \<longleftrightarrow>
          (\<forall>l \<in> set spec_lines. \<not> spec_wins b l) \<and> (\<forall>k<9. elems b ! k \<noteq> Null))
    \<and> (Outcome b = Undecided \<longleftrightarrow>
          (\<forall>l \<in> set spec_lines. \<not> spec_wins b l) \<and> (\<exists>k<9. elems b ! k = Null))
    \<and> \<not> (winnerObj (derive b) \<noteq> None \<and> draw (derive b))"
proof -
  have both: "\<not> (winnerObj (derive b) \<noteq> None \<and> draw (derive b))"
    by (auto simp: derive_def Let_def)
  show ?thesis
  proof (cases "find (spec_wins b) spec_lines")
    case None
    then have no: "\<forall>l \<in> set spec_lines. \<not> spec_wins b l"
      unfolding find_None_iff by blast
    have o: "Outcome b = (if \<forall>k<9. elems b ! k \<noteq> Null then Draw else Undecided)"
      by (simp add: Outcome_find [OF assms] None)
    have 1: "(\<exists>p l. Outcome b = Win p l) \<longleftrightarrow> (\<exists>l \<in> set spec_lines. spec_wins b l)"
      using no by (simp add: o)
    have 2: "\<forall>p l. Outcome b = Win p l \<longrightarrow>
          find (spec_wins b) spec_lines = Some l \<and> p = elems b ! nat (fst l)"
      by (simp add: o)
    have 3: "Outcome b = Draw \<longleftrightarrow>
          (\<forall>l \<in> set spec_lines. \<not> spec_wins b l) \<and> (\<forall>k<9. elems b ! k \<noteq> Null)"
      using no by (simp add: o)
    have 4: "Outcome b = Undecided \<longleftrightarrow>
          (\<forall>l \<in> set spec_lines. \<not> spec_wins b l) \<and> (\<exists>k<9. elems b ! k = Null)"
      using no by (simp add: o)
    from 1 2 3 4 both show ?thesis by blast
  next
    case (Some l)
    then have yes: "l \<in> set spec_lines" "spec_wins b l"
      by (auto simp: find_Some_iff)
    have o: "Outcome b = Win (elems b ! nat (fst l)) l"
      by (simp add: Outcome_find [OF assms] Some)
    have 1: "(\<exists>p l. Outcome b = Win p l) \<longleftrightarrow> (\<exists>l \<in> set spec_lines. spec_wins b l)"
      using yes o by blast
    have 2: "\<forall>p l. Outcome b = Win p l \<longrightarrow>
          find (spec_wins b) spec_lines = Some l \<and> p = elems b ! nat (fst l)"
      by (auto simp: o Some)
    have 3: "Outcome b = Draw \<longleftrightarrow>
          (\<forall>l \<in> set spec_lines. \<not> spec_wins b l) \<and> (\<forall>k<9. elems b ! k \<noteq> Null)"
      using yes by (auto simp: o)
    have 4: "Outcome b = Undecided \<longleftrightarrow>
          (\<forall>l \<in> set spec_lines. \<not> spec_wins b l) \<and> (\<exists>k<9. elems b ! k = Null)"
      using yes by (auto simp: o)
    from 1 2 3 4 both show ?thesis by blast
  qed
qed

theorem outcome_evaluator_witness:
  "wf_board \<lparr>elems = [Str ''X'', Str ''X'', Str ''X'', Str ''X'', Str ''O'', Str ''O'',
                      Str ''X'', Str ''O'', Str ''O''], props = []\<rparr>
   \<and> spec_wins \<lparr>elems = [Str ''X'', Str ''X'', Str ''X'', Str ''X'', Str ''O'', Str ''O'',
                      Str ''X'', Str ''O'', Str ''O''], props = []\<rparr> (0, 3, 6)
   \<and> Outcome \<lparr>elems = [Str ''X'', Str ''X'', Str ''X'', Str ''X'', Str ''O'', Str ''O'',
                      Str ''X'', Str ''O'', Str ''O''], props = []\<rparr> = Win (Str ''X'') (0, 1, 2)
   \<and> find (spec_wins \<lparr>elems = [Str ''X'', Str ''X'', Str ''X'', Str ''X'', Str ''O'', Str ''O'',
                      Str ''X'', Str ''O'', Str ''O''], props = []\<rparr>) spec_lines = Some (0, 1, 2)"
proof -
  let ?b = "\<lparr>elems = [Str ''X'', Str ''X'', Str ''X'', Str ''X'', Str ''O'', Str ''O'',
                      Str ''X'', Str ''O'', Str ''O''], props = []\<rparr>"
  have w: "wf_board ?b" by code_simp
  have s: "spec_wins ?b (0, 3, 6)" by simp
  have o: "Outcome ?b = Win (Str ''X'') (0, 1, 2)" by code_simp
  from outcome_evaluator [OF w] o
  have "find (spec_wins ?b) spec_lines = Some (0, 1, 2)" by blast
  with w s o show ?thesis by blast
qed

section \<open>Accepted moves\<close>

lemma Outcome_Undecided:
  "Outcome b = Undecided \<longleftrightarrow> winnerObj (derive b) = None \<and> \<not> every_not_null b"
  by (auto simp: Outcome_def derive_def Let_def split: option.splits)

lemma click_accepted:
  assumes g: "good s" and i: "0 \<le> i" "i \<le> 8"
    and w: "winnerObj (derive (current s)) = None" and e: "elems (current s) ! nat i = Null"
  shows "dispatch s (SquareClick i) = Inr (placed s i)"
    and "History (placed s i) =
           take (Suc (nat (stepNumber s))) (History s)
             @ [(current s)\<lparr>elems := (elems (current s))[nat i := nextMark s]\<rparr>]"
    and "stepNumber (placed s i) = stepNumber s + 1"
proof -
  have wf: "wf_board (current s)" by (rule good_current(1) [OF g])
  show "dispatch s (SquareClick i) = Inr (placed s i)"
    by (simp add: dispatch_click [OF g] w e empty_square [OF wf i])
  show "History (placed s i) =
           take (Suc (nat (stepNumber s))) (History s)
             @ [(current s)\<lparr>elems := (elems (current s))[nat i := nextMark s]\<rparr>]"
    by (simp add: History_placed [OF g] arr_set_inside [OF wf i])
  show "stepNumber (placed s i) = stepNumber s + 1"
    by (simp add: placed_def)
qed

lemma three_marks_on_line:
  assumes wf: "wf_board b" and l: "l \<in> set spec_lines" and w: "spec_wins b l"
  shows "3 \<le> marks b"
proof -
  obtain x y z where xyz: "l = (x, y, z)" by (cases l) auto
  have d: "nat x < 9 \<and> nat y < 9 \<and> nat z < 9 \<and> nat x \<noteq> nat y \<and> nat x \<noteq> nat z \<and> nat y \<noteq> nat z"
    using l unfolding xyz by (auto simp: spec_lines_def)
  have len: "length (elems b) = 9" using wf by (simp add: wf_board_def)
  have sub: "{nat x, nat y, nat z} \<subseteq> {k. k < length (elems b) \<and> elems b ! k \<noteq> Null}"
    using w d unfolding xyz len by auto
  have "card {nat x, nat y, nat z} \<le> card {k. k < length (elems b) \<and> elems b ! k \<noteq> Null}"
    by (rule card_mono [OF _ sub]) simp
  moreover have "card {nat x, nat y, nat z} = 3"
    using d by simp
  ultimately show ?thesis
    by (simp add: marks_def length_filter_conv_card)
qed

lemma few_marks_undecided:
  assumes wf: "wf_board b" and m: "marks b < 3"
  shows "Outcome b = Undecided"
proof -
  have "find (spec_wins b) spec_lines = None"
  proof (rule ccontr)
    assume "find (spec_wins b) spec_lines \<noteq> None"
    then obtain l where "l \<in> set spec_lines" "spec_wins b l"
      by (auto simp: find_None_iff)
    from three_marks_on_line [OF wf this] m show False by simp
  qed
  then have nw: "winnerObj (derive b) = None"
    by (simp add: derive_def Let_def calculateWinner_find [OF wf])
  have "\<not> every_not_null b"
  proof
    assume "every_not_null b"
    then have "filter (\<lambda>c. c \<noteq> Null) (elems b) = elems b"
      by (simp add: every_not_null_def list_all_iff)
    then have "marks b = 9"
      using wf by (simp add: marks_def wf_board_def)
    with m show False by simp
  qed
  with nw show ?thesis by (simp add: Outcome_Undecided)
qed

lemma take_two:
  assumes "2 \<le> length xs"
  shows "take 2 xs = [xs ! 0, xs ! 1]"
proof -
  from assms obtain a b ys where "xs = a # b # ys"
    by (cases xs; cases "tl xs") auto
  then show ?thesis by (simp add: numeral_2_eq_2)
qed

text \<open>
  C3. In a reachable state with CurrentIndex \<open>c\<close> whose current board is undecided, a
  click on an empty square \<open>i\<close> of that board leaves as History exactly the entries
  \<open>0..c\<close> followed by one new board (the current one with the mark on \<open>i\<close>), and
  CurrentIndex \<open>c + 1\<close>. In particular, from any reachable state with CurrentIndex 3,
  a jump to 1 and a click on a square empty there leave a History of length 3: entry 0,
  entry 1 and the new board; the moves recorded after entry 1 are gone.
\<close>

theorem accepted_click_truncates:
  assumes "reachable s" and "0 \<le> i" and "i \<le> 8"
  shows "(Outcome (current s) = Undecided \<and> elems (current s) ! nat i = Null \<longrightarrow>
            (\<exists>s'. dispatch s (SquareClick i) = Inr s'
               \<and> History s' =
                   take (nat (stepNumber s) + 1) (History s)
                     @ [(current s)\<lparr>elems := (elems (current s))[nat i := nextMark s]\<rparr>]
               \<and> stepNumber s' = stepNumber s + 1))
       \<and> (stepNumber s = 3 \<and> elems (History s ! 1) ! nat i = Null \<longrightarrow>
            (\<exists>t u. dispatch s (JumpClick 1) = Inr t \<and> dispatch t (SquareClick i) = Inr u
               \<and> length (History u) = 3
               \<and> History u =
                   [History s ! 0, History s ! 1,
                    (History s ! 1)\<lparr>elems := (elems (History s ! 1))[nat i := Str ''O'']\<rparr>]
               \<and> stepNumber u = 2))"
proof (intro conjI impI)
  have g: "good s" using assms(1) by (rule reachable_good)
  {
    assume a: "Outcome (current s) = Undecided \<and> elems (current s) ! nat i = Null"
    then have w: "winnerObj (derive (current s)) = None"
      by (simp add: Outcome_Undecided)
    from click_accepted [OF g assms(2,3) w] a
    show "\<exists>s'. dispatch s (SquareClick i) = Inr s'
               \<and> History s' =
                   take (nat (stepNumber s) + 1) (History s)
                     @ [(current s)\<lparr>elems := (elems (current s))[nat i := nextMark s]\<rparr>]
               \<and> stepNumber s' = stepNumber s + 1"
      by simp
  }
  {
    assume b: "stepNumber s = 3 \<and> elems (History s ! 1) ! nat i = Null"
    let ?t = "jumpTo s 1"
    have len: "3 < length (history s)"
      using good_bounds(2) [OF g] b by simp
    have d: "dispatch s (JumpClick 1) = Inr ?t"
      by (rule dispatch_jump [OF g])
    have gt: "good ?t"
      using len by (intro good_jump [OF g]) simp_all
    have st: "stepNumber ?t = 1" "xIsNext ?t = False"
      by (simp_all add: jumpTo_def js_rem_2)
    have cur: "current ?t = History s ! 1"
      by (simp add: current_def st)
    have "wf_board (History s ! 1)" "marks (History s ! 1) = 1"
      using good_board [OF g, of 1] len by simp_all
    then have "Outcome (current ?t) = Undecided"
      unfolding cur by (intro few_marks_undecided) simp_all
    then have w: "winnerObj (derive (current ?t)) = None"
      by (simp add: Outcome_Undecided)
    have e: "elems (current ?t) ! nat i = Null"
      using b by (simp add: cur)
    have two: "take 2 (History s) = [History s ! 0, History s ! 1]"
      using len by (intro take_two) simp
    note acc = click_accepted [OF gt assms(2,3) w e]
    have h: "History (placed ?t i) =
                   [History s ! 0, History s ! 1,
                    (History s ! 1)\<lparr>elems := (elems (History s ! 1))[nat i := Str ''O'']\<rparr>]"
      using acc(2) two by (simp add: cur st nextMark_def numeral_2_eq_2)
    have "stepNumber (placed ?t i) = 2"
      using acc(3) by (simp add: st)
    with d acc(1) h
    show "\<exists>t u. dispatch s (JumpClick 1) = Inr t \<and> dispatch t (SquareClick i) = Inr u
               \<and> length (History u) = 3
               \<and> History u =
                   [History s ! 0, History s ! 1,
                    (History s ! 1)\<lparr>elems := (elems (History s ! 1))[nat i := Str ''O'']\<rparr>]
               \<and> stepNumber u = 2"
      by (intro exI [of _ ?t] exI [of _ "placed ?t i"]) (simp del: length_History)
  }
qed

theorem accepted_click_truncates_witness:
  "reachable threeMoves \<and> stepNumber threeMoves = 3
   \<and> Outcome (current threeMoves) = Undecided
   \<and> elems (current threeMoves) ! nat 8 = Null
   \<and> elems (History threeMoves ! 1) ! nat 8 = Null
   \<and> length (History threeMoves) = 4
   \<and> (\<exists>s'. dispatch threeMoves (SquareClick 8) = Inr s'
          \<and> History s' =
              take (nat (stepNumber threeMoves) + 1) (History threeMoves)
                @ [(current threeMoves)\<lparr>elems :=
                     (elems (current threeMoves))[nat 8 := nextMark threeMoves]\<rparr>]
          \<and> stepNumber s' = stepNumber threeMoves + 1)
   \<and> (\<exists>t u. dispatch threeMoves (JumpClick 1) = Inr t \<and> dispatch t (SquareClick 8) = Inr u
          \<and> length (History u) = 3
          \<and> History u =
              [History threeMoves ! 0, History threeMoves ! 1,
               (History threeMoves ! 1)\<lparr>elems :=
                  (elems (History threeMoves ! 1))[nat 8 := Str ''O'']\<rparr>]
          \<and> stepNumber u = 2)"
proof -
  have r: "reachable threeMoves"
    unfolding threeMoves_def by (rule reachable_after) code_simp
  have a: "stepNumber threeMoves = 3" by code_simp
  have b: "Outcome (current threeMoves) = Undecided" by code_simp
  have c: "elems (current threeMoves) ! nat 8 = Null" by code_simp
  have d: "elems (History threeMoves ! 1) ! nat 8 = Null" by code_simp
  have e: "length (History threeMoves) = 4" by code_simp
  have i: "(0::int) \<le> 8" "(8::int) \<le> 8" by simp_all
  from accepted_click_truncates [OF r i] a b c d e r show ?thesis
    by blast
qed

lemma placed_differs: "placed s i \<noteq> s"
proof
  assume "placed s i = s"
  then have "stepNumber (placed s i) = stepNumber s" by simp
  then show False by (simp add: placed_def)
qed

lemma click_cases:
  assumes g: "good s" and i: "0 \<le> i" "i \<le> 8"
    and d: "dispatch s (SquareClick i) = Inr s'" and n: "s' \<noteq> s"
  shows "s' = placed s i" "winnerObj (derive (current s)) = None"
    "elems (current s) ! nat i = Null"
  using d n empty_square [OF good_current(1) [OF g] i]
  by (auto simp: dispatch_click [OF g] split: if_splits)

lemma current_placed:
  assumes g: "good s" and i: "0 \<le> i" "i \<le> 8"
  shows "current (placed s i) = (current s)\<lparr>elems := (elems (current s))[nat i := nextMark s]\<rparr>"
proof -
  have "nat (stepNumber (placed s i)) = Suc (nat (stepNumber s))"
    using good_bounds(1) [OF g] by (simp add: placed_def nat_add_distrib)
  then show ?thesis
    by (simp add: current_def [of "placed s i"] placed_new [OF g]
        arr_set_inside [OF good_current(1) [OF g] i])
qed

section \<open>Whose turn it is\<close>

text \<open>
  C4. In every reachable state (a fresh game, after a reset, after any jump the move
  list offers, after any move) the turn flag equals the parity of CurrentIndex, so the
  mark an accepted click places when CurrentIndex is \<open>k\<close> is "X" for even \<open>k\<close> and "O"
  for odd \<open>k\<close>: the new current board is the old one with that mark on the clicked
  square, which was empty. A reset and a jump to any integer leave the flag equal to
  the parity of the new CurrentIndex.
\<close>

theorem turn_follows_parity:
  assumes "reachable s"
  shows "xIsNext s = even (stepNumber s)
    \<and> (\<forall>i s'. 0 \<le> i \<and> i \<le> 8 \<and> dispatch s (SquareClick i) = Inr s' \<and> s' \<noteq> s \<longrightarrow>
          elems (current s) ! nat i = Null
          \<and> current s' =
              (current s)\<lparr>elems := (elems (current s))
                 [nat i := (if even (stepNumber s) then Str ''X'' else Str ''O'')]\<rparr>)
    \<and> (\<exists>t. dispatch s ResetClick = Inr t \<and> xIsNext t = even (stepNumber t))
    \<and> (\<forall>move. \<exists>t. dispatch s (JumpClick move) = Inr t \<and> xIsNext t = even (stepNumber t))"
proof -
  have g: "good s" using assms by (rule reachable_good)
  have rs: "\<exists>t. dispatch s ResetClick = Inr t \<and> xIsNext t = even (stepNumber t)"
    by (simp add: dispatch_reset [OF g] resetGame_def)
  have jp: "\<forall>move. \<exists>t. dispatch s (JumpClick move) = Inr t \<and> xIsNext t = even (stepNumber t)"
    by (simp add: dispatch_jump [OF g] jumpTo_def js_rem_2)
  have x: "xIsNext s = even (stepNumber s)"
    using g by (simp add: good_def)
  then have m: "nextMark s = (if even (stepNumber s) then Str ''X'' else Str ''O'')"
    by (simp add: nextMark_def)
  have "elems (current s) ! nat i = Null
          \<and> current s' =
              (current s)\<lparr>elems := (elems (current s))
                 [nat i := (if even (stepNumber s) then Str ''X'' else Str ''O'')]\<rparr>"
    if "0 \<le> i \<and> i \<le> 8 \<and> dispatch s (SquareClick i) = Inr s' \<and> s' \<noteq> s" for i s'
  proof -
    from that have i: "0 \<le> i" "i \<le> 8" and d: "dispatch s (SquareClick i) = Inr s'"
      and n: "s' \<noteq> s" by auto
    note c = click_cases [OF g i d n]
    show ?thesis
      unfolding c(1) current_placed [OF g i] m using c(3) by simp
  qed
  with x rs jp show ?thesis by blast
qed

theorem turn_follows_parity_witness:
  "reachable threeMoves \<and> stepNumber threeMoves = 3 \<and> xIsNext threeMoves = False
   \<and> dispatch threeMoves (SquareClick 8) = Inr (placed threeMoves 8)
   \<and> elems (current (placed threeMoves 8)) ! 8 = Str ''O''"
proof -
  have r: "reachable threeMoves"
    unfolding threeMoves_def by (rule reachable_after) code_simp
  have a: "stepNumber threeMoves = 3" by code_simp
  have w: "winnerObj (derive (current threeMoves)) = None" by code_simp
  have e: "elems (current threeMoves) ! nat 8 = Null" by code_simp
  have l: "length (elems (current threeMoves)) = 9" by code_simp
  have d: "dispatch threeMoves (SquareClick 8) = Inr (placed threeMoves 8)"
    by (rule click_accepted(1) [OF reachable_good [OF r] _ _ w e]) simp_all
  from turn_follows_parity [OF r] a have x: "xIsNext threeMoves = False"
    by simp
  have "0 \<le> (8::int) \<and> (8::int) \<le> 8
      \<and> dispatch threeMoves (SquareClick 8) = Inr (placed threeMoves 8)
      \<and> placed threeMoves 8 \<noteq> threeMoves"
    using d placed_differs [of threeMoves 8] by simp
  with turn_follows_parity [OF r]
  have "current (placed threeMoves 8) =
              (current threeMoves)\<lparr>elems := (elems (current threeMoves))
                 [nat 8 := (if even (stepNumber threeMoves) then Str ''X'' else Str ''O'')]\<rparr>"
    by blast
  then have "elems (current (placed threeMoves 8)) ! 8 = Str ''O''"
    using a l by simp
  with r a x d show ?thesis by simp
qed

section \<open>History length\<close>

text \<open>
  C5. In a reachable state, after every accepted click (one that changes the state)
  the length of History is CurrentIndex + 1; and a click on the reset button always
  succeeds and leaves a History of length 1, whose one entry is the board of nine empty
  cells, with CurrentIndex 0.
\<close>

theorem history_length_after_move_and_reset:
  assumes "reachable s"
  shows "(\<forall>i s'. dispatch s (SquareClick i) = Inr s' \<and> s' \<noteq> s \<longrightarrow>
            int (length (History s')) = stepNumber s' + 1)
    \<and> (\<exists>t. dispatch s ResetClick = Inr t \<and> History t = [arr_fill 9 Null]
          \<and> length (History t) = 1 \<and> stepNumber t = 0)"
proof -
  have g: "good s" using assms by (rule reachable_good)
  have "int (length (History s')) = stepNumber s' + 1"
    if "dispatch s (SquareClick i) = Inr s' \<and> s' \<noteq> s" for i s'
  proof -
    from that have "s' = placed s i"
      by (auto simp: dispatch_click [OF g] split: if_splits)
    then show ?thesis
      using good_bounds(1) [OF g] by (simp add: placed_length [OF g]) (simp add: placed_def)
  qed
  moreover have "\<exists>t. dispatch s ResetClick = Inr t \<and> History t = [arr_fill 9 Null]
          \<and> length (History t) = 1 \<and> stepNumber t = 0"
    by (simp add: dispatch_reset [OF g] del: length_History) (simp add: resetGame_def)
  ultimately show ?thesis by blast
qed

theorem history_length_after_move_and_reset_witness:
  "reachable threeMoves
   \<and> dispatch threeMoves (SquareClick 8) = Inr (placed threeMoves 8)
   \<and> placed threeMoves 8 \<noteq> threeMoves
   \<and> int (length (History (placed threeMoves 8))) = stepNumber (placed threeMoves 8) + 1
   \<and> stepNumber (placed threeMoves 8) = 4
   \<and> (\<exists>t. dispatch threeMoves ResetClick = Inr t \<and> History t = [arr_fill 9 Null]
          \<and> length (History t) = 1 \<and> stepNumber t = 0)"
proof -
  have r: "reachable threeMoves"
    unfolding threeMoves_def by (rule reachable_after) code_simp
  have a: "stepNumber threeMoves = 3" by code_simp
  have w: "winnerObj (derive (current threeMoves)) = None" by code_simp
  have e: "elems (current threeMoves) ! nat 8 = Null" by code_simp
  have d: "dispatch threeMoves (SquareClick 8) = Inr (placed threeMoves 8)"
    by (rule click_accepted(1) [OF reachable_good [OF r] _ _ w e]) simp_all
  have n: "placed threeMoves 8 \<noteq> threeMoves" by (rule placed_differs)
  have s: "stepNumber (placed threeMoves 8) = 4"
    using a by (simp add: placed_def)
  from history_length_after_move_and_reset [OF r] d n r s show ?thesis
    by blast
qed

section \<open>Clicks outside the board\<close>

lemma outside_not_truthy:
  assumes "wf_board b" "i < 0 \<or> 8 < i"
  shows "\<not> truthy (arr_get b i)"
  using assms by (auto simp: arr_get_def wf_board_def)

lemma outside_keeps_cells:
  assumes "wf_board b" "i < 0 \<or> 8 < i"
  shows "take 9 (elems (arr_set (arr_slice b) i v)) = elems b"
  using assms by (auto simp: arr_set_def arr_slice_def wf_board_def isArrayIndex_def)

lemma render_placed:
  assumes "good s"
  shows "render (placed s i) = Inr (derive (current (placed s i)))"
proof -
  have "js_index (history (placed s i)) (stepNumber (placed s i))
          = Some (history (placed s i) ! nat (stepNumber (placed s i)))"
    unfolding js_index_def placed_length [OF assms]
    using good_bounds(1) [OF assms] by (simp add: placed_def)
  moreover have "nat (stepNumber (placed s i)) < length (history (placed s i))"
    unfolding placed_length [OF assms]
    using good_bounds(1) [OF assms] by (simp add: placed_def)
  ultimately show ?thesis
    by (simp add: render_def current_def History_def)
qed

lemma heap_placed: "r < nextRef s \<Longrightarrow> heap (placed s i) r = heap s r"
  by (simp add: placed_def)

text \<open>
  C6, as the code has it. \<^verbatim>\<open>handleClick\<close> has no test of the range of the index:
  in a reachable state a click with an index below 0 or above 8 raises no fault and
  changes no board already in the store, and the next render succeeds; it is rejected
  (the state stays as it is) exactly when the current board has a winner; otherwise,
  also on a full board, it is accepted like a move: History becomes the entries up to
  CurrentIndex followed by one new board, which repeats the nine cells of the current
  board and holds the mark outside them, and CurrentIndex grows by one.
\<close>

theorem out_of_range_click_is_accepted:
  assumes "reachable s" and "i < 0 \<or> 8 < i"
  shows "\<exists>s'. dispatch s (SquareClick i) = Inr s'
    \<and> (\<exists>v. render s' = Inr v)
    \<and> (\<forall>r < nextRef s. heap s' r = heap s r)
    \<and> (winnerObj (derive (current s)) \<noteq> None \<longrightarrow> s' = s)
    \<and> (winnerObj (derive (current s)) = None \<longrightarrow>
          History s' =
            take (nat (stepNumber s) + 1) (History s)
              @ [arr_set (arr_slice (current s)) i (nextMark s)]
          \<and> stepNumber s' = stepNumber s + 1
          \<and> take 9 (elems (current s')) = elems (current s)
          \<and> arr_get (current s') i = nextMark s)"
proof -
  have g: "good s" using assms(1) by (rule reachable_good)
  have wf: "wf_board (current s)" by (rule good_current(1) [OF g])
  note nt = outside_not_truthy [OF wf assms(2)]
  show ?thesis
  proof (cases "winnerObj (derive (current s)) = None")
    case False
    then have "dispatch s (SquareClick i) = Inr s"
      by (simp add: dispatch_click [OF g])
    then show ?thesis
      using False render_good [OF g] by simp
  next
    case True
    have d: "dispatch s (SquareClick i) = Inr (placed s i)"
      using True nt by (simp add: dispatch_click [OF g])
    have c: "current (placed s i) = arr_set (arr_slice (current s)) i (nextMark s)"
    proof -
      have "nat (stepNumber (placed s i)) = Suc (nat (stepNumber s))"
        using good_bounds(1) [OF g] by (simp add: placed_def nat_add_distrib)
      then show ?thesis
        by (simp add: current_def [of "placed s i"] placed_new [OF g])
    qed
    have k: "take 9 (elems (current (placed s i))) = elems (current s)"
      unfolding c by (rule outside_keeps_cells [OF wf assms(2)])
    have m: "arr_get (current (placed s i)) i = nextMark s"
      unfolding c using wf assms(2)
      by (auto simp: arr_get_def arr_set_def arr_slice_def isArrayIndex_def wf_board_def
          nth_append)
    have h: "History (placed s i) =
            take (nat (stepNumber s) + 1) (History s)
              @ [arr_set (arr_slice (current s)) i (nextMark s)]"
      by (simp add: History_placed [OF g])
    have st: "stepNumber (placed s i) = stepNumber s + 1"
      by (simp add: placed_def)
    show ?thesis
      using d render_placed [OF g, of i] heap_placed [of _ s i] True h st k m
      by (intro exI [of _ "placed s i"]) simp
  qed
qed

theorem out_of_range_click_is_accepted_witness:
  "reachable initialState \<and> (- 1 :: int) < 0
   \<and> winnerObj (derive (current initialState)) = None
   \<and> stepNumber initialState = 0
   \<and> (\<exists>s'. dispatch initialState (SquareClick (- 1)) = Inr s'
          \<and> stepNumber s' = 1
          \<and> length (History s') = 2
          \<and> take 9 (elems (current s')) = elems (current initialState)
          \<and> arr_get (current s') (- 1) = Str ''X'')"
proof -
  have r: "reachable initialState" by (rule reachable.start)
  have w: "winnerObj (derive (current initialState)) = None" by code_simp
  have a: "stepNumber initialState = 0" "nextMark initialState = Str ''X''"
    "length (History initialState) = 1"
    by code_simp+
  have i: "(- 1 :: int) < 0 \<or> 8 < (- 1 :: int)" by simp
  from out_of_range_click_is_accepted [OF r i] w a
  have "\<exists>s'. dispatch initialState (SquareClick (- 1)) = Inr s'
          \<and> stepNumber s' = 1
          \<and> length (History s') = 2
          \<and> take 9 (elems (current s')) = elems (current initialState)
          \<and> arr_get (current s') (- 1) = Str ''X''"
    by (auto simp del: length_History)
  with r w a show ?thesis by simp
qed

text \<open>
  C6 as the specification states it fails: on a fresh game a click with index 9 is not
  ignored. It appends a second board, of ten elements, and moves CurrentIndex to 1.
\<close>

theorem out_of_range_click_counterexample:
  "reachable initialState \<and> length (History initialState) = 1 \<and> stepNumber initialState = 0
   \<and> dispatch initialState (SquareClick 9) \<noteq> Inr initialState
   \<and> (\<exists>s'. dispatch initialState (SquareClick 9) = Inr s'
          \<and> length (History s') = 2 \<and> stepNumber s' = 1
          \<and> elems (current s') = replicate 9 Null @ [Str ''X''])"
proof -
  have r: "reachable initialState" by (rule reachable.start)
  have a: "stepNumber initialState = 0" "length (History initialState) = 1"
    by code_simp+
  have g: "\<not> (winnerObj (derive (current initialState)) \<noteq> None
            \<or> truthy (arr_get (current initialState) 9))"
    by code_simp
  have d: "dispatch initialState (SquareClick 9) = Inr (placed initialState 9)"
    using g by (simp add: dispatch_click [OF good_initial])
  have p: "length (History (placed initialState 9)) = 2" "stepNumber (placed initialState 9) = 1"
    "elems (current (placed initialState 9)) = replicate 9 Null @ [Str ''X'']"
    by code_simp+
  have n: "dispatch initialState (SquareClick 9) \<noteq> Inr initialState"
    unfolding d using placed_differs [of initialState 9] by simp
  from r a d p n show ?thesis by (simp del: length_History)
qed

section \<open>Jumps outside the history\<close>

lemma render_outside:
  assumes "stepNumber s < 0 \<or> int (length (history s)) \<le> stepNumber s"
  shows "render s = Inl TypeError"
  using assms by (auto simp: render_def js_index_def)

lemma dispatch_outside:
  assumes "stepNumber s < 0 \<or> int (length (history s)) \<le> stepNumber s"
  shows "dispatch s ev = Inl TypeError"
  by (simp add: dispatch_def render_outside [OF assms])

text \<open>
  C7, as the code has it. \<^verbatim>\<open>jumpTo\<close> has no test of the range of its argument: in a
  reachable state a jump to an integer below 0 or at least the length of History returns
  without a fault and leaves History and the store as they are, but it stores the index
  as the step number. CurrentIndex is then outside the history, the current board is
  \<^verbatim>\<open>undefined\<close>, and the next render, the status line and every later event end in a
  TypeError.
\<close>

theorem out_of_range_jump_is_stored:
  assumes "reachable s" and "move < 0 \<or> int (length (History s)) \<le> move"
  shows "\<exists>s'. dispatch s (JumpClick move) = Inr s'
    \<and> History s' = History s \<and> heap s' = heap s
    \<and> stepNumber s' = move
    \<and> render s' = Inl TypeError \<and> status s' = Inl TypeError
    \<and> (\<forall>ev. dispatch s' ev = Inl TypeError)"
proof -
  have g: "good s" using assms(1) by (rule reachable_good)
  let ?t = "jumpTo s move"
  have o: "stepNumber ?t < 0 \<or> int (length (history ?t)) \<le> stepNumber ?t"
    using assms(2) by (simp add: jumpTo_def)
  have "dispatch s (JumpClick move) = Inr ?t"
    by (rule dispatch_jump [OF g])
  moreover have "History ?t = History s" "heap ?t = heap s" "stepNumber ?t = move"
    by (simp_all add: jumpTo_def History_def)
  moreover have "render ?t = Inl TypeError"
    by (rule render_outside [OF o])
  moreover from this have "status ?t = Inl TypeError"
    by (simp add: status_def)
  moreover have "\<forall>ev. dispatch ?t ev = Inl TypeError"
    using dispatch_outside [OF o] by simp
  ultimately show ?thesis by blast
qed

theorem out_of_range_jump_is_stored_witness:
  "reachable threeMoves \<and> int (length (History threeMoves)) \<le> 4
   \<and> (\<exists>s'. dispatch threeMoves (JumpClick 4) = Inr s'
          \<and> History s' = History threeMoves \<and> heap s' = heap threeMoves
          \<and> stepNumber s' = 4
          \<and> render s' = Inl TypeError \<and> status s' = Inl TypeError
          \<and> (\<forall>ev. dispatch s' ev = Inl TypeError))"
proof -
  have r: "reachable threeMoves"
    unfolding threeMoves_def by (rule reachable_after) code_simp
  have l: "int (length (History threeMoves)) \<le> 4" by code_simp
  then have "(4::int) < 0 \<or> int (length (History threeMoves)) \<le> 4" by simp
  from out_of_range_jump_is_stored [OF r this] r l show ?thesis by blast
qed

text \<open>
  C7 as the specification states it fails: on a fresh game, whose History has one
  entry, a jump to 5 is not ignored. CurrentIndex becomes 5 and the views are gone.
\<close>

theorem out_of_range_jump_counterexample:
  "reachable initialState \<and> length (History initialState) = 1 \<and> stepNumber initialState = 0
   \<and> dispatch initialState (JumpClick 5) \<noteq> Inr initialState
   \<and> (\<exists>s'. dispatch initialState (JumpClick 5) = Inr s'
          \<and> stepNumber s' = 5 \<and> length (History s') = 1
          \<and> render s' = Inl TypeError \<and> status s' = Inl TypeError)"
proof -
  have r: "reachable initialState" by (rule reachable.start)
  have a: "stepNumber initialState = 0" "length (History initialState) = 1"
    by code_simp+
  have d: "dispatch initialState (JumpClick 5) = Inr (jumpTo initialState 5)"
    by (rule dispatch_jump [OF good_initial])
  have p: "stepNumber (jumpTo initialState 5) = 5" "length (History (jumpTo initialState 5)) = 1"
    "render (jumpTo initialState 5) = Inl TypeError"
    "status (jumpTo initialState 5) = Inl TypeError"
    by code_simp+
  have "jumpTo initialState 5 \<noteq> initialState"
  proof
    assume "jumpTo initialState 5 = initialState"
    then have "stepNumber (jumpTo initialState 5) = stepNumber initialState" by simp
    with p(1) a(1) show False by simp
  qed
  then have n: "dispatch initialState (JumpClick 5) \<noteq> Inr initialState"
    unfolding d by simp
  from r a d p n show ?thesis by (simp del: length_History)
qed

section \<open>The history invariant\<close>

lemma empty_board:
  assumes "wf_board b" "marks b = 0"
  shows "b = arr_fill 9 Null"
proof -
  from assms(2) have "\<forall>c \<in> set (elems b). c = Null"
    by (simp add: marks_def filter_empty_conv)
  with assms(1) have "elems b = replicate 9 Null"
    by (intro replicate_eqI) (auto simp: wf_board_def)
  with assms(1) show ?thesis
    by (simp add: arr_fill_def wf_board_def)
qed

lemma handleClick_store:
  assumes "handleClick v s i = Inr s'"
  shows "nextRef s \<le> nextRef s' \<and> (\<forall>r < nextRef s. heap s' r = heap s r)"
  using assms
  by (auto simp: handleClick_def Let_def split: if_splits option.splits)

lemma stepEffect_store [simp]:
  "heap (stepEffect n s) = heap s" "nextRef (stepEffect n s) = nextRef s"
  by (simp_all add: stepEffect_def)

lemma dispatch_store:
  assumes "dispatch s ev = Inr s'"
  shows "nextRef s \<le> nextRef s' \<and> (\<forall>r < nextRef s. heap s' r = heap s r)"
proof (cases ev)
  case (SquareClick i)
  with assms obtain v t where "handleClick v s i = Inr t" "s' = stepEffect (stepNumber s) t"
    by (auto simp: dispatch_def split: sum.splits)
  then show ?thesis
    using handleClick_store [of v s i t] by simp
next
  case ResetClick
  with assms have "s' = stepEffect (stepNumber s) (resetGame s)"
    by (auto simp: dispatch_def split: sum.splits)
  then show ?thesis by (simp add: resetGame_def)
next
  case (JumpClick move)
  with assms have "s' = stepEffect (stepNumber s) (jumpTo s move)"
    by (auto simp: dispatch_def split: sum.splits)
  then show ?thesis by (simp add: jumpTo_def)
qed

lemma run_store:
  "run s evs = Inr s' \<Longrightarrow> nextRef s \<le> nextRef s' \<and> (\<forall>r < nextRef s. heap s' r = heap s r)"
proof (induction evs arbitrary: s)
  case Nil
  then show ?case by simp
next
  case (Cons ev evs)
  then obtain t where t: "dispatch s ev = Inr t" "run t evs = Inr s'"
    by (auto split: sum.splits)
  from dispatch_store [OF t(1)] Cons.IH [OF t(2)] show ?case
    by auto
qed

lemma run_offered: "offeredAll s evs \<Longrightarrow> \<exists>s'. run s evs = Inr s'"
  by (induction evs arbitrary: s) (auto split: sum.splits)

text \<open>
  C8. In every reachable state History is not empty and its entry 0 is the board of
  nine empty cells; every later entry is its predecessor, a board of nine cells, with
  one cell that was empty set to "X" or "O"; and whatever events follow (clicks on
  squares, jumps, resets, with any arguments), the array that is entry \<open>k\<close> of History
  now holds the same contents in every later state.
\<close>

theorem history_invariant:
  assumes "reachable s"
  shows "History s \<noteq> [] \<and> History s ! 0 = arr_fill 9 Null
    \<and> (\<forall>k. 0 < k \<and> k < length (History s) \<longrightarrow>
          length (elems (History s ! (k - 1))) = 9
          \<and> (\<exists>j<9. \<exists>m. (m = Str ''X'' \<or> m = Str ''O'')
                \<and> elems (History s ! (k - 1)) ! j = Null
                \<and> History s ! k =
                    (History s ! (k - 1))\<lparr>elems := (elems (History s ! (k - 1)))[j := m]\<rparr>))
    \<and> (\<forall>evs s'. run s evs = Inr s' \<longrightarrow>
          (\<forall>k < length (history s). heap s' (history s ! k) = History s ! k))"
proof -
  have g: "good s" using assms by (rule reachable_good)
  have ne: "history s \<noteq> []" using g by (simp add: good_def)
  then have 1: "History s \<noteq> []" by (simp add: History_def)
  have 2: "History s ! 0 = arr_fill 9 Null"
    using good_board [OF g, of 0] ne by (intro empty_board) simp_all
  have 3: "length (elems (History s ! (k - 1))) = 9
          \<and> (\<exists>j<9. \<exists>m. (m = Str ''X'' \<or> m = Str ''O'')
                \<and> elems (History s ! (k - 1)) ! j = Null
                \<and> History s ! k =
                    (History s ! (k - 1))\<lparr>elems := (elems (History s ! (k - 1)))[j := m]\<rparr>)"
    if "0 < k \<and> k < length (History s)" for k
  proof -
    from that obtain n where n: "k = Suc n" "Suc n < length (history s)"
      by (cases k) auto
    have "wf_board (History s ! n)"
      using good_board(1) [OF g, of n] n by simp
    then have "length (elems (History s ! n)) = 9"
      by (simp add: wf_board_def)
    moreover from good_chain [OF g n(2)] obtain j where "j < 9"
      "elems (History s ! n) ! j = Null" "isMark (elems (History s ! Suc n) ! j)"
      "History s ! Suc n =
         (History s ! n)\<lparr>elems := (elems (History s ! n))[j := elems (History s ! Suc n) ! j]\<rparr>"
      unfolding oneMove_def by blast
    ultimately show ?thesis
      unfolding n(1) isMark_def by (simp del: length_History) blast
  qed
  have 4: "\<forall>k < length (history s). heap s' (history s ! k) = History s ! k"
    if "run s evs = Inr s'" for evs s'
  proof (intro allI impI)
    fix k assume k: "k < length (history s)"
    then have "history s ! k < nextRef s"
      using g by (simp add: good_def)
    with run_store [OF that] show "heap s' (history s ! k) = History s ! k"
      using k by (simp add: History_def)
  qed
  from 1 2 3 4 show ?thesis by blast
qed

theorem history_invariant_witness:
  "reachable threeMoves \<and> length (History threeMoves) = 4
   \<and> History threeMoves ! 0 = arr_fill 9 Null
   \<and> History threeMoves ! 2 =
       (History threeMoves ! 1)\<lparr>elems := (elems (History threeMoves ! 1))[3 := Str ''O'']\<rparr>
   \<and> (\<exists>s'. run threeMoves [JumpClick 1, SquareClick 8, ResetClick, SquareClick 4] = Inr s'
          \<and> heap s' (history threeMoves ! 3) = History threeMoves ! 3
          \<and> heap s' (history threeMoves ! 2) = History threeMoves ! 2)"
proof -
  have r: "reachable threeMoves"
    unfolding threeMoves_def by (rule reachable_after) code_simp
  have l: "length (History threeMoves) = 4" by code_simp
  have c: "History threeMoves ! 2 =
       (History threeMoves ! 1)\<lparr>elems := (elems (History threeMoves ! 1))[3 := Str ''O'']\<rparr>"
    by code_simp
  have "offeredAll threeMoves [JumpClick 1, SquareClick 8, ResetClick, SquareClick 4]"
    by code_simp
  then obtain s' where
    s': "run threeMoves [JumpClick 1, SquareClick 8, ResetClick, SquareClick 4] = Inr s'"
    using run_offered by blast
  note h = history_invariant [OF r]
  from h have z: "History threeMoves ! 0 = arr_fill 9 Null" by blast
  from h s' have "\<forall>k < length (history threeMoves).
      heap s' (history threeMoves ! k) = History threeMoves ! k"
    by blast
  with l have "heap s' (history threeMoves ! 3) = History threeMoves ! 3"
    "heap s' (history threeMoves ! 2) = History threeMoves ! 2"
    by simp_all
  with r l z c s' show ?thesis by blast
qed

section \<open>Playing on from an earlier position\<close>

text \<open>
  C10. Whether a click is accepted depends on the board at CurrentIndex alone: in every
  reachable state whose current board is undecided, a click on a square 0..8 that is
  empty on it is accepted, whatever the entries of History after CurrentIndex hold. The
  state changes, CurrentIndex grows by one, the new current board has the mark on the
  square, and History ends with it.
\<close>

theorem acceptance_looks_at_current_board_only:
  assumes "reachable s" and "0 \<le> i" and "i \<le> 8"
    and "Outcome (current s) = Undecided" and "elems (current s) ! nat i = Null"
  shows "\<exists>s'. dispatch s (SquareClick i) = Inr s' \<and> s' \<noteq> s
    \<and> stepNumber s' = stepNumber s + 1
    \<and> elems (current s') ! nat i = nextMark s
    \<and> int (length (History s')) = stepNumber s + 2
    \<and> last (History s') = current s'"
proof -
  have g: "good s" using assms(1) by (rule reachable_good)
  have wf: "wf_board (current s)" by (rule good_current(1) [OF g])
  have w: "winnerObj (derive (current s)) = None"
    using assms(4) by (simp add: Outcome_Undecided)
  note acc = click_accepted [OF g assms(2,3) w assms(5)]
  note cur = current_placed [OF g assms(2,3)]
  have "nat i < length (elems (current s))"
    using wf assms(2,3) by (simp add: wf_board_def)
  then have m: "elems (current (placed s i)) ! nat i = nextMark s"
    by (simp add: cur)
  have l: "int (length (History (placed s i))) = stepNumber s + 2"
    using good_bounds(1) [OF g] by (simp add: placed_length [OF g])
  have e: "last (History (placed s i)) = current (placed s i)"
    by (simp add: acc(2) cur)
  from acc(1,3) placed_differs [of s i] m l e show ?thesis
    by blast
qed

theorem acceptance_looks_at_current_board_only_witness:
  "reachable xWinsBackAt3 \<and> stepNumber xWinsBackAt3 = 3
   \<and> length (History xWinsBackAt3) = 6
   \<and> Outcome (History xWinsBackAt3 ! 5) = Win (Str ''X'') (0, 1, 2)
   \<and> Outcome (current xWinsBackAt3) = Undecided
   \<and> elems (current xWinsBackAt3) ! nat 8 = Null
   \<and> (\<exists>s'. dispatch xWinsBackAt3 (SquareClick 8) = Inr s' \<and> s' \<noteq> xWinsBackAt3
          \<and> stepNumber s' = stepNumber xWinsBackAt3 + 1
          \<and> elems (current s') ! nat 8 = nextMark xWinsBackAt3
          \<and> int (length (History s')) = stepNumber xWinsBackAt3 + 2
          \<and> last (History s') = current s')"
proof -
  have r: "reachable xWinsBackAt3"
    unfolding xWinsBackAt3_def by (rule reachable_after) code_simp
  have a: "stepNumber xWinsBackAt3 = 3" by code_simp
  have l: "length (History xWinsBackAt3) = 6" by code_simp
  have o: "Outcome (History xWinsBackAt3 ! 5) = Win (Str ''X'') (0, 1, 2)" by code_simp
  have u: "Outcome (current xWinsBackAt3) = Undecided" by code_simp
  have e: "elems (current xWinsBackAt3) ! nat 8 = Null" by code_simp
  have i: "(0::int) \<le> 8" "(8::int) \<le> 8" by simp_all
  from acceptance_looks_at_current_board_only [OF r i u e] r a l o u e show ?thesis
    by blast
qed

section \<open>The status line\<close>

lemma scanLines_truthy: "scanLines sq ls = Some w \<Longrightarrow> truthy (winner w)"
  by (induction sq ls rule: scanLines.induct) (auto split: if_splits)

lemma winner_is_mark:
  assumes wf: "wf_board b" and w: "calculateWinner b = Some w"
  shows "winner w = Str ''X'' \<or> winner w = Str ''O''"
proof -
  from w obtain l where l: "find (spec_wins b) spec_lines = Some l"
    and v: "winner w = elems b ! nat (fst l)"
    by (auto simp: calculateWinner_find [OF wf] split: option.splits)
  from l have "l \<in> set spec_lines" by (auto simp: find_Some_iff)
  then have "nat (fst l) < 9"
    using line_in_board [of "fst l" "fst (snd l)" "snd (snd l)"] by auto
  then have "elems b ! nat (fst l) = Null \<or> isMark (elems b ! nat (fst l))"
    using wf by (simp add: wf_board_def list_all_length)
  moreover have "truthy (winner w)"
    using w by (auto simp: calculateWinner_def dest: scanLines_truthy)
  ultimately show ?thesis
    by (auto simp: v isMark_def)
qed

text \<open>
  C9, with the texts the code has. In a reachable state the render succeeds, and the
  status line is a function of the board at CurrentIndex alone: "Winner: " with the
  winner's mark and the party emoji when the Outcome is a Win, "It's a draw! " with the
  handshake emoji when it is a Draw, and "Next player: " with "X" or "O", by the parity
  of the number of marks on the board, when it is Undecided. The winner is "X" or "O".
  The line to highlight is the line of the Win, and there is none otherwise. After the
  clicks on 0, 3, 1, 4, 2 of a fresh game CurrentIndex is 5, the Outcome is a Win of "X"
  on the line (0, 1, 2), and the status line is "Winner: X" with the emoji.
\<close>

theorem status_projection:
  assumes "reachable s"
  shows "render s = Inr (derive (current s))
    \<and> status s = Inr (case Outcome (current s) of
                        Win p l \<Rightarrow> ''Winner: '' @ jsText p @ '' '' @ partyPopper
                      | Draw \<Rightarrow> ''It's a draw! '' @ handshake
                      | Undecided \<Rightarrow>
                          ''Next player: '' @ (if even (marks (current s)) then ''X'' else ''O''))
    \<and> winningLine (derive (current s)) =
          (case Outcome (current s) of Win p l \<Rightarrow> Some l | Draw \<Rightarrow> None | Undecided \<Rightarrow> None)
    \<and> (\<forall>p l. Outcome (current s) = Win p l \<longrightarrow> p = Str ''X'' \<or> p = Str ''O'')
    \<and> stepNumber xWins = 5
    \<and> Outcome (current xWins) = Win (Str ''X'') (0, 1, 2)
    \<and> status xWins = Inr (''Winner: X '' @ partyPopper)"
proof -
  have g: "good s" using assms by (rule reachable_good)
  have wf: "wf_board (current s)" by (rule good_current(1) [OF g])
  let ?v = "derive (current s)"
  have rd: "render s = Inr ?v" by (rule render_good [OF g])
  have x: "xIsNext s = even (marks (current s))"
    using g good_bounds(1) [OF g] by (simp add: good_current(2) [OF g] good_def even_nat_iff)
  have st: "status s = Inr (case Outcome (current s) of
                        Win p l \<Rightarrow> ''Winner: '' @ jsText p @ '' '' @ partyPopper
                      | Draw \<Rightarrow> ''It's a draw! '' @ handshake
                      | Undecided \<Rightarrow>
                          ''Next player: '' @ (if even (marks (current s)) then ''X'' else ''O''))"
  proof (cases "calculateWinner (current s)")
    case None
    then show ?thesis
      by (simp add: status_def rd statusText_def GameStatus_def Outcome_def derive_def x)
  next
    case (Some w)
    then have "truthy (winner w)"
      by (auto simp: calculateWinner_def dest: scanLines_truthy)
    then show ?thesis
      using Some
      by (simp add: status_def rd statusText_def GameStatus_def Outcome_def derive_def)
  qed
  have wl: "winningLine ?v =
          (case Outcome (current s) of Win p l \<Rightarrow> Some l | Draw \<Rightarrow> None | Undecided \<Rightarrow> None)"
    by (simp add: winningLine_def Outcome_def split: option.splits)
  have mk: "\<forall>p l. Outcome (current s) = Win p l \<longrightarrow> p = Str ''X'' \<or> p = Str ''O''"
    using winner_is_mark [OF wf]
    by (auto simp: Outcome_def derive_def Let_def split: option.splits if_splits)
  have sc: "stepNumber xWins = 5" "Outcome (current xWins) = Win (Str ''X'') (0, 1, 2)"
    "status xWins = Inr (''Winner: X '' @ partyPopper)"
    by code_simp+
  from rd st wl mk sc show ?thesis by blast
qed

theorem status_projection_witness:
  "reachable xWinsBackAt3 \<and> marks (current xWinsBackAt3) = 3
   \<and> Outcome (current xWinsBackAt3) = Undecided
   \<and> status xWinsBackAt3 = Inr ''Next player: O''
   \<and> winningLine (derive (current xWinsBackAt3)) = None"
proof -
  have r: "reachable xWinsBackAt3"
    unfolding xWinsBackAt3_def by (rule reachable_after) code_simp
  have m: "marks (current xWinsBackAt3) = 3" by code_simp
  have u: "Outcome (current xWinsBackAt3) = Undecided" by code_simp
  from status_projection [OF r] u m
  have "status xWinsBackAt3 = Inr ''Next player: O''"
    "winningLine (derive (current xWinsBackAt3)) = None"
    by simp_all
  with r m u show ?thesis by simp
qed

text \<open>
  C9 as the specification states it fails on the texts: after the clicks on 0, 3, 1, 4, 2
  the status line is not "Win by PlayerA".
\<close>

theorem status_text_counterexample:
  "xWins = after [SquareClick 0, SquareClick 3, SquareClick 1, SquareClick 4, SquareClick 2]
   \<and> status xWins = Inr (''Winner: X '' @ partyPopper)
   \<and> status xWins \<noteq> Inr ''Win by PlayerA''"
proof -
  have "status xWins = Inr (''Winner: X '' @ partyPopper)" by code_simp
  moreover from this have "status xWins \<noteq> Inr ''Win by PlayerA''" by simp
  ultimately show ?thesis by (simp add: xWins_def)
qed

end
